theory Spec2Isabelle
  imports Complex_Main "HOL-Library.Word" "HOL-Library.Signed_Division"
begin

section \<open>Ocean floor: sample lookup\<close>

text \<open>
  The class \<open>Physics::OceanFloor\<close> keeps an array of precomputed samples and answers
  height queries by indexing it with the position divided by the sample step.

  C++ \<open>float\<close> values are modelled as reals: the arithmetic is exact and rounding is not
  part of the model. The 32-bit integer produced by \<open>FastFloorInt32\<close> is a \<open>32 word\<close>
  read as two's complement with \<open>sint\<close>. The index arithmetic of the source mixes this
  \<open>int32_t\<close> with the \<open>int64_t\<close> constant \<open>SamplesCount\<close>, so it is carried out in 64
  bits; it is written on \<open>int\<close> with C++'s truncating remainder \<open>smod\<close>, and lemma
  \<open>sampleIndexI_fits_int64\<close> shows that no intermediate value leaves the 64-bit range.
\<close>

type_synonym int32_t = "32 word"

record Sample =
  SampleValue :: real
  SampleValuePlusOneMinusSampleValue :: real

record OceanFloor =
  mSamples :: "Sample list"
  mBumpMapSamples :: "real list"
  mCurrentSeaDepth :: real
  mCurrentOceanFloorBumpiness :: real
  mCurrentOceanFloorDetailAmplification :: real

definition Period :: real where
  "Period = 2000 * pi"

definition SamplesCount :: int where
  "SamplesCount = 512"

definition Dx :: real where
  "Dx = Period / real_of_int SamplesCount"

datatype lookup_error = AssertionFailed | OutOfBounds

text \<open>
  The two branches of \<open>GetFloorHeightAt\<close> that turn the absolute sample index into an
  index into the array and a fractional offset.
\<close>

definition sampleIndexI :: "int \<Rightarrow> int" where
  "sampleIndexI absoluteSampleIndexI =
     (if absoluteSampleIndexI \<ge> 0
      then absoluteSampleIndexI smod SamplesCount
      else (SamplesCount - 1) + (absoluteSampleIndexI smod SamplesCount))"

definition sampleIndexDx :: "real \<Rightarrow> int \<Rightarrow> real" where
  "sampleIndexDx absoluteSampleIndexF absoluteSampleIndexI =
     (if absoluteSampleIndexI \<ge> 0
      then absoluteSampleIndexF - real_of_int absoluteSampleIndexI
      else 1 + absoluteSampleIndexF - real_of_int absoluteSampleIndexI)"

text \<open>
  \<open>FastFloorInt32\<close> is declared in \<open>GameMath.h\<close>, which is not among the sources; it is a
  parameter of the lookup. The \<open>assert\<close> of the source is the \<open>AssertionFailed\<close> result,
  and a read beyond the end of the array is \<open>OutOfBounds\<close>.
\<close>

definition GetFloorHeightAt ::
  "(real \<Rightarrow> int32_t) \<Rightarrow> OceanFloor \<Rightarrow> real \<Rightarrow> lookup_error + real" where
  "GetFloorHeightAt FastFloorInt32 this x =
     (let absoluteSampleIndexF = x / Dx;
          absoluteSampleIndexI = sint (FastFloorInt32 absoluteSampleIndexF);
          i = sampleIndexI absoluteSampleIndexI;
          d = sampleIndexDx absoluteSampleIndexF absoluteSampleIndexI
      in if \<not> (i \<ge> 0 \<and> i < SamplesCount) then Inl AssertionFailed
         else if \<not> nat i < length (mSamples this) then Inl OutOfBounds
         else Inr (SampleValue (mSamples this ! nat i)
                   + SampleValuePlusOneMinusSampleValue (mSamples this ! nat i) * d))"

text \<open>
  Where an evaluation needs a concrete \<open>FastFloorInt32\<close>, two readings of the absent
  helper are used: the floor its name announces, and the truncation towards zero that a
  plain conversion of a \<open>float\<close> to an integer performs. Both are narrowed to 32 bits.
\<close>

definition FastFloorInt32_floor :: "real \<Rightarrow> int32_t" where
  "FastFloorInt32_floor v = word_of_int \<lfloor>v\<rfloor>"

definition FastFloorInt32_trunc :: "real \<Rightarrow> int32_t" where
  "FastFloorInt32_trunc v = word_of_int (if v \<ge> 0 then \<lfloor>v\<rfloor> else - \<lfloor>- v\<rfloor>)"

text \<open>
  The lookup as the specification words it: the position divided by the sample step is
  split into its integral part \<open>k\<close> and its fractional part, and the result is the
  linear interpolation between sample \<open>k mod SamplesCount\<close> and the next one, the array
  being read cyclically.
\<close>

definition FloorHeight_interpolated :: "OceanFloor \<Rightarrow> real \<Rightarrow> real" where
  "FloorHeight_interpolated this x =
     (let p = x / Dx;
          k = \<lfloor>p\<rfloor>;
          i = nat (k mod SamplesCount);
          j = nat ((k + 1) mod SamplesCount)
      in SampleValue (mSamples this ! i)
         + (SampleValue (mSamples this ! j) - SampleValue (mSamples this ! i))
           * (p - real_of_int k))"

text \<open>
  The array holds \<open>SamplesCount\<close> samples, and each sample stores, as its field name
  says, the value of the next sample minus its own value.
\<close>

definition samples_consistent :: "OceanFloor \<Rightarrow> bool" where
  "samples_consistent this \<longleftrightarrow>
     length (mSamples this) = nat SamplesCount
     \<and> (\<forall>i < nat SamplesCount.
           SampleValuePlusOneMinusSampleValue (mSamples this ! i)
           = SampleValue (mSamples this ! ((i + 1) mod nat SamplesCount))
             - SampleValue (mSamples this ! i))"

text \<open>
  A sea floor that is flat at height 0 except for one peak of height 1 at sample 511.
\<close>

definition bumpSample :: "nat \<Rightarrow> Sample" where
  "bumpSample i =
     (if i = 510 then \<lparr> SampleValue = 0, SampleValuePlusOneMinusSampleValue = 1 \<rparr>
      else if i = 511 then \<lparr> SampleValue = 1, SampleValuePlusOneMinusSampleValue = - 1 \<rparr>
      else \<lparr> SampleValue = 0, SampleValuePlusOneMinusSampleValue = 0 \<rparr>)"

definition bumpFloor :: OceanFloor where
  "bumpFloor = \<lparr> mSamples = map bumpSample [0 ..< 512],
      mBumpMapSamples = [], mCurrentSeaDepth = 0, mCurrentOceanFloorBumpiness = 0,
      mCurrentOceanFloorDetailAmplification = 0 \<rparr>"

section \<open>Index bounds\<close>

lemma smod_SamplesCount_nonneg:
  "0 \<le> a \<Longrightarrow> 0 \<le> a smod SamplesCount \<and> a smod SamplesCount < SamplesCount"
  by (simp add: SamplesCount_def smod_int_compares)

lemma smod_SamplesCount_neg:
  "a < 0 \<Longrightarrow> - SamplesCount < a smod SamplesCount \<and> a smod SamplesCount \<le> 0"
  by (simp add: SamplesCount_def smod_int_compares)

lemma sampleIndexI_range:
  "0 \<le> sampleIndexI a \<and> sampleIndexI a < SamplesCount"
proof (cases "0 \<le> a")
  case True
  then show ?thesis
    using smod_SamplesCount_nonneg [of a] by (simp add: sampleIndexI_def)
next
  case False
  then have "a < 0" by simp
  from smod_SamplesCount_neg [OF this] False show ?thesis
    by (simp add: sampleIndexI_def)
qed

lemma sampleIndexI_fits_int64:
  assumes "- (2 ^ 31) \<le> a" and "a < 2 ^ 31"
  shows "- (2 ^ 63) \<le> a smod SamplesCount \<and> a smod SamplesCount < 2 ^ 63
         \<and> - (2 ^ 63) \<le> (SamplesCount - 1) + (a smod SamplesCount)
         \<and> (SamplesCount - 1) + (a smod SamplesCount) < 2 ^ 63
         \<and> - (2 ^ 31) \<le> sampleIndexI a \<and> sampleIndexI a < 2 ^ 31"
proof -
  have r: "- SamplesCount < a smod SamplesCount \<and> a smod SamplesCount < SamplesCount"
    using smod_SamplesCount_nonneg [of a] smod_SamplesCount_neg [of a]
    by (cases "0 \<le> a") (auto simp: SamplesCount_def)
  have s: "0 \<le> sampleIndexI a \<and> sampleIndexI a < SamplesCount"
    by (rule sampleIndexI_range)
  from r s show ?thesis by (simp add: SamplesCount_def)
qed

lemma GetFloorHeightAt_eval:
  assumes "x / Dx = F" and "sint (ff F) = I" and "sampleIndexI I = int i"
    and "i < length (mSamples this)"
  shows "GetFloorHeightAt ff this x =
           Inr (SampleValue (mSamples this ! i)
                + SampleValuePlusOneMinusSampleValue (mSamples this ! i) * sampleIndexDx F I)"
proof -
  have "0 \<le> sampleIndexI I \<and> sampleIndexI I < SamplesCount"
    by (rule sampleIndexI_range)
  with assms show ?thesis
    by (simp add: GetFloorHeightAt_def Let_def)
qed

subsection \<open>Facts for concrete evaluations\<close>

lemma Dx_pos: "0 < Dx"
  by (simp add: Dx_def Period_def SamplesCount_def)

lemma bumpFloor_nth: "i < 512 \<Longrightarrow> mSamples bumpFloor ! i = bumpSample i"
  by (simp add: bumpFloor_def)

lemma bumpFloor_length: "length (mSamples bumpFloor) = 512"
  by (simp add: bumpFloor_def)

lemma bumpFloor_consistent: "samples_consistent bumpFloor"
  unfolding samples_consistent_def
proof (intro conjI allI impI)
  show "length (mSamples bumpFloor) = nat SamplesCount"
    by (simp add: bumpFloor_length SamplesCount_def)
next
  fix i assume "i < nat SamplesCount"
  then have i: "i < 512" by (simp add: SamplesCount_def)
  then have j: "(i + 1) mod 512 < 512" by simp
  have m: "(i + 1) mod 512 = (if i = 511 then 0 else i + 1)"
    using i by (simp add: mod_Suc)
  show "SampleValuePlusOneMinusSampleValue (mSamples bumpFloor ! i) =
         SampleValue (mSamples bumpFloor ! ((i + 1) mod nat SamplesCount)) -
         SampleValue (mSamples bumpFloor ! i)"
    using i j unfolding SamplesCount_def
    by (simp add: bumpFloor_nth m) (simp add: bumpSample_def)
qed

lemma half_step_left: "- (Dx / 2) / Dx = - (1 / 2)"
  using Dx_pos by simp

lemma sampleIndexI_minus_1: "sampleIndexI (- 1) = 510"
  by (simp add: sampleIndexI_def SamplesCount_def smod_int_alt_def)

lemma sampleIndexI_0: "sampleIndexI 0 = 0"
  by (simp add: sampleIndexI_def SamplesCount_def smod_int_alt_def)

lemma floor_at_minus_half: "sint (FastFloorInt32_floor (- (1 / 2))) = - 1"
  by (simp add: FastFloorInt32_floor_def)

lemma trunc_at_minus_half: "sint (FastFloorInt32_trunc (- (1 / 2))) = 0"
  by (simp add: FastFloorInt32_trunc_def)

lemma floor_lookup_left:
  "GetFloorHeightAt FastFloorInt32_floor bumpFloor (- (Dx / 2)) = Inr (3 / 2)"
  using GetFloorHeightAt_eval [where ff = FastFloorInt32_floor and F = "- (1 / 2)"
      and I = "- 1" and i = 510 and this = bumpFloor, OF half_step_left floor_at_minus_half]
  by (simp add: sampleIndexI_minus_1 bumpFloor_length bumpFloor_nth bumpSample_def
      sampleIndexDx_def)

lemma trunc_lookup_left:
  "GetFloorHeightAt FastFloorInt32_trunc bumpFloor (- (Dx / 2)) = Inr 0"
  using GetFloorHeightAt_eval [where ff = FastFloorInt32_trunc and F = "- (1 / 2)"
      and I = 0 and i = 0 and this = bumpFloor, OF half_step_left trunc_at_minus_half]
  by (simp add: sampleIndexI_0 bumpFloor_length bumpFloor_nth bumpSample_def
      sampleIndexDx_def)

lemma interpolated_left: "FloorHeight_interpolated bumpFloor (- (Dx / 2)) = 1 / 2"
  unfolding FloorHeight_interpolated_def half_step_left Let_def
  by (simp add: SamplesCount_def bumpFloor_nth bumpSample_def)

subsection \<open>The bound\<close>

text \<open>
  C9. Whatever 32-bit integer \<open>FastFloorInt32\<close> returns for the position (so for every
  position, negative ones included), the index computed by \<open>GetFloorHeightAt\<close> lies in
  \<open>0 .. SamplesCount - 1\<close> with \<open>SamplesCount = 512\<close>: the assertion of the lookup
  never fails, and when the array holds \<open>SamplesCount\<close> samples both reads are within
  bounds and the lookup returns a height.
\<close>

theorem GetFloorHeightAt_index_in_bounds:
  assumes "nat SamplesCount \<le> length (mSamples this)"
  shows "0 \<le> sampleIndexI (sint (FastFloorInt32 (x / Dx)))
         \<and> sampleIndexI (sint (FastFloorInt32 (x / Dx))) < SamplesCount
         \<and> SamplesCount = 512
         \<and> GetFloorHeightAt FastFloorInt32 this x \<noteq> Inl AssertionFailed
         \<and> GetFloorHeightAt FastFloorInt32 this x \<noteq> Inl OutOfBounds
         \<and> (\<exists>h. GetFloorHeightAt FastFloorInt32 this x = Inr h)"
proof -
  let ?i = "sampleIndexI (sint (FastFloorInt32 (x / Dx)))"
  have r: "0 \<le> ?i \<and> ?i < SamplesCount"
    by (rule sampleIndexI_range)
  then have "nat ?i < nat SamplesCount"
    by (simp add: nat_less_eq_zless)
  from this assms have b: "nat ?i < length (mSamples this)"
    by (rule less_le_trans)
  have c: "SamplesCount = 512"
    by (simp add: SamplesCount_def)
  from r b have "GetFloorHeightAt FastFloorInt32 this x =
      Inr (SampleValue (mSamples this ! nat ?i)
           + SampleValuePlusOneMinusSampleValue (mSamples this ! nat ?i)
             * sampleIndexDx (x / Dx) (sint (FastFloorInt32 (x / Dx))))"
    by (simp add: GetFloorHeightAt_def Let_def)
  with r c show ?thesis
    by simp
qed

theorem GetFloorHeightAt_index_in_bounds_witness:
  "nat SamplesCount \<le> length (mSamples bumpFloor)
   \<and> sampleIndexI (sint (FastFloorInt32_floor (- (Dx / 2) / Dx))) = 510
   \<and> GetFloorHeightAt FastFloorInt32_floor bumpFloor (- (Dx / 2)) = Inr (3 / 2)"
proof -
  have h: "nat SamplesCount \<le> length (mSamples bumpFloor)"
    by (simp add: SamplesCount_def bumpFloor_length)
  have i: "sampleIndexI (sint (FastFloorInt32_floor (- (Dx / 2) / Dx))) = 510"
    unfolding half_step_left floor_at_minus_half by (rule sampleIndexI_minus_1)
  from GetFloorHeightAt_index_in_bounds [OF h, of FastFloorInt32_floor "- (Dx / 2)"]
  obtain v where "GetFloorHeightAt FastFloorInt32_floor bumpFloor (- (Dx / 2)) = Inr v"
    by blast
  with floor_lookup_left
  have "GetFloorHeightAt FastFloorInt32_floor bumpFloor (- (Dx / 2)) = Inr (3 / 2)"
    by simp
  with h i show ?thesis
    by simp
qed

section \<open>Interpolation\<close>

text \<open>
  The lemmas of this section compare the lookup with \<open>FloorHeight_interpolated\<close> in
  exact arithmetic. The first branch of the lookup, taken for a non-negative integral
  part, returns the interpolated value.
\<close>

lemma sampleIndexI_nonneg: "0 \<le> k \<Longrightarrow> sampleIndexI k = k mod SamplesCount"
  by (simp add: sampleIndexI_def SamplesCount_def smod_mod_positive)

lemma next_index:
  assumes "0 \<le> k"
  shows "nat ((k + 1) mod SamplesCount) = (nat (k mod SamplesCount) + 1) mod nat SamplesCount"
proof -
  have "int ((nat (k mod 512) + 1) mod 512) = (k mod 512 + 1) mod 512"
    by (simp add: zmod_int add.commute)
  also have "\<dots> = (k + 1) mod 512"
    by (simp add: mod_add_left_eq)
  finally show ?thesis
    by (simp add: SamplesCount_def)
qed

lemma floor_index_nonneg: "0 \<le> x \<Longrightarrow> 0 \<le> \<lfloor>x / Dx\<rfloor>"
  using Dx_pos by simp

lemma GetFloorHeightAt_nonneg:
  assumes "samples_consistent this" and "0 \<le> x"
    and "sint (ff (x / Dx)) = \<lfloor>x / Dx\<rfloor>"
  shows "GetFloorHeightAt ff this x = Inr (FloorHeight_interpolated this x)"
proof -
  define k where "k = \<lfloor>x / Dx\<rfloor>"
  define i where "i = nat (k mod SamplesCount)"
  have k0: "0 \<le> k"
    unfolding k_def using assms(2) by (rule floor_index_nonneg)
  have i_lt: "i < nat SamplesCount"
    by (simp add: i_def SamplesCount_def nat_less_iff)
  have len: "length (mSamples this) = nat SamplesCount"
    using assms(1) by (simp add: samples_consistent_def)
  have d: "SampleValuePlusOneMinusSampleValue (mSamples this ! i)
           = SampleValue (mSamples this ! ((i + 1) mod nat SamplesCount))
             - SampleValue (mSamples this ! i)"
    using assms(1) i_lt by (simp add: samples_consistent_def)
  have idx: "sampleIndexI k = int i"
    using k0 by (simp add: sampleIndexI_nonneg i_def SamplesCount_def)
  have "GetFloorHeightAt ff this x =
          Inr (SampleValue (mSamples this ! i)
               + SampleValuePlusOneMinusSampleValue (mSamples this ! i)
                 * sampleIndexDx (x / Dx) k)"
    using assms(3) idx i_lt len
    by (intro GetFloorHeightAt_eval [where F = "x / Dx"]) (simp_all add: k_def)
  moreover have "sampleIndexDx (x / Dx) k = x / Dx - real_of_int k"
    using k0 by (simp add: sampleIndexDx_def)
  moreover have "FloorHeight_interpolated this x =
      SampleValue (mSamples this ! i)
      + (SampleValue (mSamples this ! ((i + 1) mod nat SamplesCount))
         - SampleValue (mSamples this ! i))
        * (x / Dx - real_of_int k)"
    using next_index [OF k0]
    by (simp add: FloorHeight_interpolated_def Let_def k_def [symmetric] i_def [symmetric])
  ultimately show ?thesis
    using d by simp
qed

text \<open>
  The second branch computes the offset as \<open>1 + F - I\<close>, which is a fractional part when
  \<open>I\<close> is \<open>F\<close> truncated towards zero. With such a \<open>FastFloorInt32\<close> the lookup returns
  the interpolated value at every position with \<open>x / Dx \<le> -1\<close>.
\<close>

lemma sampleIndexI_neg: "k < 0 \<Longrightarrow> sampleIndexI k = 511 - (- k) mod 512"
  by (simp add: sampleIndexI_def SamplesCount_def smod_int_alt_def)

lemma wrap_next: "(511 - (- I) mod 512 + 1) mod 512 = I mod (512 :: int)"
proof -
  have "(511 - (- I) mod 512 + 1) mod 512 = (- ((- I) mod 512) + 512) mod 512"
    by (simp add: algebra_simps)
  also have "\<dots> = (- ((- I) mod 512)) mod 512"
    by (rule mod_add_self2)
  also have "\<dots> = (- (- I)) mod 512"
    by (rule mod_minus_eq)
  finally show ?thesis by simp
qed

lemma wrap_prev: "(I - 1) mod 512 = 511 - (- I) mod (512 :: int)"
proof (rule int_mod_pos_eq)
  have "- I = 512 * ((- I) div 512) + (- I) mod 512"
    by (simp only: mult_div_mod_eq)
  then show "I - 1 = 512 * (- ((- I) div 512) - 1) + (511 - (- I) mod 512)"
    by (simp add: algebra_simps)
  show "0 \<le> 511 - (- I) mod 512"
    using pos_mod_bound [of 512 "- I"] by simp
  show "511 - (- I) mod 512 < 512"
    using pos_mod_sign [of 512 "- I"] by simp
qed

lemma GetFloorHeightAt_truncating_left:
  assumes c: "samples_consistent this" and l: "x / Dx \<le> - 1"
    and t: "sint (ff (x / Dx)) = - \<lfloor>- (x / Dx)\<rfloor>"
  shows "GetFloorHeightAt ff this x = Inr (FloorHeight_interpolated this x)"
proof -
  define F where "F = x / Dx"
  define I where "I = - \<lfloor>- F\<rfloor>"
  define n where "n = nat (511 - (- I) mod 512)"
  have I_ceil: "I = \<lceil>F\<rceil>" by (simp add: I_def ceiling_def)
  have Ineg: "I < 0"
  proof -
    from l have "F \<le> - 1" by (simp add: F_def)
    then show ?thesis by (simp add: I_ceil)
  qed
  have m: "0 \<le> (- I) mod 512" "(- I) mod 512 < 512" by simp_all
  then have n_lt: "n < 512" and n_int: "int n = 511 - (- I) mod 512"
    by (simp_all add: n_def)
  have idx: "sampleIndexI I = int n"
    using Ineg by (simp add: sampleIndexI_neg n_int)
  have len: "length (mSamples this) = 512"
    using c by (simp add: samples_consistent_def SamplesCount_def)
  have dn: "SampleValuePlusOneMinusSampleValue (mSamples this ! n)
            = SampleValue (mSamples this ! ((n + 1) mod 512)) - SampleValue (mSamples this ! n)"
    using c n_lt by (simp add: samples_consistent_def SamplesCount_def)
  have nxt: "(n + 1) mod 512 = nat (I mod 512)"
  proof -
    have "int ((n + 1) mod 512) = (511 - (- I) mod 512 + 1) mod 512"
      by (simp add: zmod_int n_int add.commute)
    also have "\<dots> = I mod 512" by (rule wrap_next)
    finally show ?thesis by simp
  qed
  then have nxt': "Suc n mod 512 = nat (I mod 512)" by simp
  have code: "GetFloorHeightAt ff this x =
      Inr (SampleValue (mSamples this ! n)
           + SampleValuePlusOneMinusSampleValue (mSamples this ! n) * (1 + F - real_of_int I))"
  proof -
    have "sint (ff F) = I" using t by (simp add: F_def I_def)
    from GetFloorHeightAt_eval [where ff = ff and F = F and I = I and i = n and this = this,
        OF _ this idx] n_lt len Ineg
    show ?thesis by (simp add: F_def sampleIndexDx_def)
  qed
  show ?thesis
  proof (cases "F = real_of_int \<lfloor>F\<rfloor>")
    case True
    then have k: "\<lfloor>F\<rfloor> = I" by (simp add: I_ceil ceiling_altdef)
    then have FI: "F = real_of_int I" using True by simp
    have "FloorHeight_interpolated this x = SampleValue (mSamples this ! nat (I mod 512))"
      unfolding FloorHeight_interpolated_def Let_def F_def [symmetric] k
      by (simp add: FI SamplesCount_def)
    moreover have "SampleValue (mSamples this ! n)
           + SampleValuePlusOneMinusSampleValue (mSamples this ! n) * (1 + F - real_of_int I)
           = SampleValue (mSamples this ! nat (I mod 512))"
      by (simp add: FI dn nxt')
    ultimately show ?thesis using code by simp
  next
    case False
    then have "\<lfloor>F\<rfloor> + 1 = I" by (simp add: I_ceil ceiling_altdef)
    then have k: "\<lfloor>F\<rfloor> = I - 1" by simp
    have i: "nat ((I - 1) mod 512) = n"
      by (simp add: wrap_prev n_def)
    have "FloorHeight_interpolated this x =
        SampleValue (mSamples this ! n)
        + (SampleValue (mSamples this ! nat (I mod 512)) - SampleValue (mSamples this ! n))
          * (F - real_of_int (I - 1))"
      unfolding FloorHeight_interpolated_def Let_def F_def [symmetric] k
      by (simp add: SamplesCount_def i)
    then show ?thesis using code by (simp add: dn nxt' algebra_simps)
  qed
qed

text \<open>
  That leaves the positions between \<open>- Dx\<close> and the origin. Half a sample step to the
  left of the origin the interpolated value on \<open>bumpFloor\<close> is \<open>1/2\<close>
  (lemma \<open>interpolated_left\<close>), and the lookup misses it whatever \<open>FastFloorInt32\<close>
  returns there: with a non-negative integral part the first branch takes an offset of at
  most \<open>-1/2\<close>, with a negative one the second branch makes it at least \<open>3/2\<close>, and
  neither is the fractional part \<open>1/2\<close>.
\<close>

lemma GetFloorHeightAt_left_any_FastFloorInt32:
  "GetFloorHeightAt ff bumpFloor (- (Dx / 2)) \<noteq> Inr (1 / 2)"
proof -
  define I where "I = sint (ff (- (1 / 2)))"
  define i where "i = nat (sampleIndexI I)"
  define d where "d = sampleIndexDx (- (1 / 2)) I"
  have r: "0 \<le> sampleIndexI I \<and> sampleIndexI I < SamplesCount"
    by (rule sampleIndexI_range)
  then have i: "i < 512" and ii: "sampleIndexI I = int i"
    by (simp_all add: i_def SamplesCount_def nat_less_iff)
  have v: "GetFloorHeightAt ff bumpFloor (- (Dx / 2)) =
      Inr (SampleValue (bumpSample i) + SampleValuePlusOneMinusSampleValue (bumpSample i) * d)"
    using GetFloorHeightAt_eval [where ff = ff and F = "- (1 / 2)" and I = I and i = i
        and this = bumpFloor, OF half_step_left] i ii
    by (simp add: I_def d_def bumpFloor_length bumpFloor_nth)
  have d: "d \<le> - (1 / 2) \<or> 3 / 2 \<le> d"
  proof (cases "0 \<le> I")
    case True
    then have "0 \<le> real_of_int I" by simp
    with True show ?thesis by (simp add: d_def sampleIndexDx_def)
  next
    case False
    then have "I \<le> - 1" by simp
    then have "real_of_int I \<le> - 1" by (metis of_int_le_iff of_int_minus of_int_1)
    with False show ?thesis by (simp add: d_def sampleIndexDx_def)
  qed
  have "SampleValue (bumpSample i) + SampleValuePlusOneMinusSampleValue (bumpSample i) * d
        \<noteq> 1 / 2"
    using d by (auto simp: bumpSample_def)
  with v show ?thesis
    by simp
qed

text \<open>
  C4. The lookup is claimed to return, at every position, the linear interpolation
  between the two adjacent samples. At \<open>x = - Dx / 2\<close> on \<open>bumpFloor\<close> it does not:
  the position lies half-way between samples 511 and 0, where the interpolated height
  is \<open>1/2\<close>. With a flooring \<open>FastFloorInt32\<close> the integral part is \<open>-1\<close>, the second
  branch reads sample \<open>511 + (-1 % 512) = 510\<close> with offset \<open>1 + (-1/2) - (-1) = 3/2\<close> and
  returns \<open>3/2\<close>; with a truncating one the integral part is \<open>0\<close>, the first branch reads
  sample 0 with offset \<open>-1/2\<close> and returns \<open>0\<close>; and no \<open>FastFloorInt32\<close> at all makes
  the lookup return the interpolated height. Every number in this evaluation
  (\<open>-1/2\<close>, \<open>3/2\<close>, \<open>0\<close>, \<open>1\<close>) is a \<open>float\<close>, and the division of \<open>- Dx / 2\<close> by \<open>Dx\<close> is
  exact, so the source computes the same values.
\<close>

theorem GetFloorHeightAt_misses_left_of_origin:
  "- (Dx / 2) / Dx = - (1 / 2)
   \<and> FloorHeight_interpolated bumpFloor (- (Dx / 2)) = 1 / 2
   \<and> sampleIndexI (sint (FastFloorInt32_floor (- (1 / 2)))) = 510
   \<and> sampleIndexDx (- (1 / 2)) (sint (FastFloorInt32_floor (- (1 / 2)))) = 3 / 2
   \<and> GetFloorHeightAt FastFloorInt32_floor bumpFloor (- (Dx / 2)) = Inr (3 / 2)
   \<and> sampleIndexI (sint (FastFloorInt32_trunc (- (1 / 2)))) = 0
   \<and> sampleIndexDx (- (1 / 2)) (sint (FastFloorInt32_trunc (- (1 / 2)))) = - (1 / 2)
   \<and> GetFloorHeightAt FastFloorInt32_trunc bumpFloor (- (Dx / 2)) = Inr 0
   \<and> GetFloorHeightAt FastFloorInt32 bumpFloor (- (Dx / 2))
       \<noteq> Inr (FloorHeight_interpolated bumpFloor (- (Dx / 2)))"
proof -
  have a: "sampleIndexDx (- (1 / 2)) (sint (FastFloorInt32_floor (- (1 / 2)))) = 3 / 2"
    unfolding floor_at_minus_half by (simp add: sampleIndexDx_def)
  have b: "sampleIndexDx (- (1 / 2)) (sint (FastFloorInt32_trunc (- (1 / 2)))) = - (1 / 2)"
    unfolding trunc_at_minus_half by (simp add: sampleIndexDx_def)
  have c: "sampleIndexI (sint (FastFloorInt32_floor (- (1 / 2)))) = 510"
    unfolding floor_at_minus_half by (rule sampleIndexI_minus_1)
  have d: "sampleIndexI (sint (FastFloorInt32_trunc (- (1 / 2)))) = 0"
    unfolding trunc_at_minus_half by (rule sampleIndexI_0)
  have e: "GetFloorHeightAt FastFloorInt32 bumpFloor (- (Dx / 2))
           \<noteq> Inr (FloorHeight_interpolated bumpFloor (- (Dx / 2)))"
    unfolding interpolated_left by (rule GetFloorHeightAt_left_any_FastFloorInt32)
  from half_step_left interpolated_left c a floor_lookup_left d b trunc_lookup_left e
  show ?thesis
    by (intro conjI)
qed

section \<open>World: environment queries\<close>

text \<open>
  \<open>Physics::World\<close> owns the ships and the environment. Of its members the record keeps
  the simulation time, the ships, the ocean surface and the ocean floor. The classes
  \<open>Ship\<close> and \<open>OceanSurface\<close> are not among the sources: they are type parameters, and
  \<open>OceanSurface::GetHeightAt\<close> is a parameter of the functions that call it.
  The fields \<open>x\<close> and \<open>y\<close> of \<open>vec2f\<close> are named \<open>vec2f_x\<close> and \<open>vec2f_y\<close>.
\<close>

record vec2f =
  vec2f_x :: real
  vec2f_y :: real

record ('ship, 'surface) World =
  mCurrentSimulationTime :: real
  mAllShips :: "'ship list"
  mOceanSurface :: 'surface
  mOceanFloor :: OceanFloor

definition GetOceanSurfaceHeightAt ::
  "('surface \<Rightarrow> real \<Rightarrow> real) \<Rightarrow> ('ship, 'surface) World \<Rightarrow> real \<Rightarrow> real" where
  "GetOceanSurfaceHeightAt GetHeightAt this x = GetHeightAt (mOceanSurface this) x"

definition IsUnderwater ::
  "('surface \<Rightarrow> real \<Rightarrow> real) \<Rightarrow> ('ship, 'surface) World \<Rightarrow> vec2f \<Rightarrow> bool" where
  "IsUnderwater GetHeightAt this position \<longleftrightarrow>
     vec2f_y position < GetOceanSurfaceHeightAt GetHeightAt this (vec2f_x position)"

text \<open>
  For evaluations: an ocean surface that is its own constant level, and a world with no
  ship whose surface is at level 0.
\<close>

definition levelSurface_GetHeightAt :: "real \<Rightarrow> real \<Rightarrow> real" where
  "levelSurface_GetHeightAt level x = level"

definition calmWorld :: "(unit, real) World" where
  "calmWorld = \<lparr> mCurrentSimulationTime = 0, mAllShips = [], mOceanSurface = 0,
                 mOceanFloor = bumpFloor \<rparr>"

text \<open>
  C10. \<open>IsUnderwater\<close> holds exactly when the position's \<open>y\<close> is strictly below the ocean
  surface height at the position's \<open>x\<close>; a position lying exactly on the surface is not
  underwater.
\<close>

theorem IsUnderwater_iff_strictly_below:
  "(IsUnderwater GetHeightAt this position
      \<longleftrightarrow> vec2f_y position < GetOceanSurfaceHeightAt GetHeightAt this (vec2f_x position))
   \<and> (vec2f_y position = GetOceanSurfaceHeightAt GetHeightAt this (vec2f_x position)
        \<longrightarrow> \<not> IsUnderwater GetHeightAt this position)"
  by (simp add: IsUnderwater_def)

theorem IsUnderwater_iff_strictly_below_witness:
  "vec2f_y \<lparr> vec2f_x = 3, vec2f_y = 0 \<rparr>
     = GetOceanSurfaceHeightAt levelSurface_GetHeightAt calmWorld (vec2f_x \<lparr> vec2f_x = 3, vec2f_y = 0 \<rparr>)
   \<and> \<not> IsUnderwater levelSurface_GetHeightAt calmWorld \<lparr> vec2f_x = 3, vec2f_y = 0 \<rparr>
   \<and> IsUnderwater levelSurface_GetHeightAt calmWorld \<lparr> vec2f_x = 3, vec2f_y = - 1 \<rparr>"
proof -
  have on_surface: "vec2f_y \<lparr> vec2f_x = 3, vec2f_y = 0 \<rparr>
      = GetOceanSurfaceHeightAt levelSurface_GetHeightAt calmWorld
          (vec2f_x \<lparr> vec2f_x = 3, vec2f_y = 0 \<rparr>)"
    by (simp add: GetOceanSurfaceHeightAt_def levelSurface_GetHeightAt_def calmWorld_def)
  have below: "vec2f_y \<lparr> vec2f_x = 3, vec2f_y = - 1 \<rparr>
      < GetOceanSurfaceHeightAt levelSurface_GetHeightAt calmWorld
          (vec2f_x \<lparr> vec2f_x = 3, vec2f_y = - 1 \<rparr>)"
    by (simp add: GetOceanSurfaceHeightAt_def levelSurface_GetHeightAt_def calmWorld_def)
  from IsUnderwater_iff_strictly_below
      [of levelSurface_GetHeightAt calmWorld "\<lparr> vec2f_x = 3, vec2f_y = 0 \<rparr>"] on_surface
  have a: "\<not> IsUnderwater levelSurface_GetHeightAt calmWorld \<lparr> vec2f_x = 3, vec2f_y = 0 \<rparr>"
    by blast
  from IsUnderwater_iff_strictly_below
      [of levelSurface_GetHeightAt calmWorld "\<lparr> vec2f_x = 3, vec2f_y = - 1 \<rparr>"] below
  have b: "IsUnderwater levelSurface_GetHeightAt calmWorld \<lparr> vec2f_x = 3, vec2f_y = - 1 \<rparr>"
    by blast
  from on_surface a b show ?thesis
    by blast
qed

section \<open>Ocean floor: update\<close>

text \<open>
  \<open>GameParameters\<close> is declared in \<open>GameParameters.h\<close>, which is not among the sources;
  the record holds the three parameters the ocean floor is current for, under the names
  the settings dialog reads and writes them by.
\<close>

record GameParameters =
  SeaDepth :: real
  OceanFloorBumpiness :: real
  OceanFloorDetailAmplification :: real

text \<open>
  Modelled from the spec: the body of \<open>OceanFloor::Update\<close>, which is only declared in
  the sources. The specification says that it recomputes the samples only when the
  sea-depth and bumpiness parameters change, not unconditionally; the class keeps
  \<open>mCurrentSeaDepth\<close>, \<open>mCurrentOceanFloorBumpiness\<close> and
  \<open>mCurrentOceanFloorDetailAmplification\<close> as ``the game parameters for which we're
  current''. How the samples are computed from the bump map and the parameters is not
  described; it is the parameter \<open>CalculateSamples\<close>.
\<close>

definition OceanFloor_Update ::
  "(real list \<Rightarrow> GameParameters \<Rightarrow> Sample list) \<Rightarrow> GameParameters \<Rightarrow> OceanFloor
   \<Rightarrow> OceanFloor" where
  "OceanFloor_Update CalculateSamples gameParameters this =
     (if SeaDepth gameParameters \<noteq> mCurrentSeaDepth this
         \<or> OceanFloorBumpiness gameParameters \<noteq> mCurrentOceanFloorBumpiness this
         \<or> OceanFloorDetailAmplification gameParameters
             \<noteq> mCurrentOceanFloorDetailAmplification this
      then this\<lparr> mSamples := CalculateSamples (mBumpMapSamples this) gameParameters,
                 mCurrentSeaDepth := SeaDepth gameParameters,
                 mCurrentOceanFloorBumpiness := OceanFloorBumpiness gameParameters,
                 mCurrentOceanFloorDetailAmplification :=
                   OceanFloorDetailAmplification gameParameters \<rparr>
      else this)"

definition parameters_current :: "GameParameters \<Rightarrow> OceanFloor \<Rightarrow> bool" where
  "parameters_current gameParameters this \<longleftrightarrow>
     SeaDepth gameParameters = mCurrentSeaDepth this
     \<and> OceanFloorBumpiness gameParameters = mCurrentOceanFloorBumpiness this
     \<and> OceanFloorDetailAmplification gameParameters
         = mCurrentOceanFloorDetailAmplification this"

text \<open>For evaluations: a sample computation that lays a flat floor at the sea depth.\<close>

definition flatSamples :: "real list \<Rightarrow> GameParameters \<Rightarrow> Sample list" where
  "flatSamples bumpMap gameParameters =
     map (\<lambda>i. \<lparr> SampleValue = - SeaDepth gameParameters,
                 SampleValuePlusOneMinusSampleValue = 0 \<rparr>) [0 ..< 512]"

definition shallowParameters :: GameParameters where
  "shallowParameters =
     \<lparr> SeaDepth = 0, OceanFloorBumpiness = 0, OceanFloorDetailAmplification = 0 \<rparr>"

definition deepParameters :: GameParameters where
  "deepParameters =
     \<lparr> SeaDepth = 100, OceanFloorBumpiness = 0, OceanFloorDetailAmplification = 0 \<rparr>"

text \<open>
  C8. When the sea depth, the ocean floor bumpiness and the detail amplification of the
  game parameters equal the stored values, \<open>Update\<close> leaves the ocean floor, its sample
  array and every height lookup unchanged. When one of them differs, the samples are
  recomputed and the stored values brought up to date. So the samples change only when a
  parameter changed.
\<close>

theorem OceanFloor_Update_recomputes_only_on_change:
  "(parameters_current gameParameters this \<longrightarrow>
      OceanFloor_Update CalculateSamples gameParameters this = this
      \<and> mSamples (OceanFloor_Update CalculateSamples gameParameters this) = mSamples this
      \<and> GetFloorHeightAt FastFloorInt32
            (OceanFloor_Update CalculateSamples gameParameters this) x
          = GetFloorHeightAt FastFloorInt32 this x)
   \<and> (\<not> parameters_current gameParameters this \<longrightarrow>
      mSamples (OceanFloor_Update CalculateSamples gameParameters this)
        = CalculateSamples (mBumpMapSamples this) gameParameters
      \<and> parameters_current gameParameters
            (OceanFloor_Update CalculateSamples gameParameters this))
   \<and> (mSamples (OceanFloor_Update CalculateSamples gameParameters this) \<noteq> mSamples this
        \<longrightarrow> \<not> parameters_current gameParameters this)"
  by (auto simp add: OceanFloor_Update_def parameters_current_def)

theorem OceanFloor_Update_recomputes_only_on_change_witness:
  "parameters_current shallowParameters bumpFloor
   \<and> OceanFloor_Update flatSamples shallowParameters bumpFloor = bumpFloor
   \<and> GetFloorHeightAt FastFloorInt32_floor
         (OceanFloor_Update flatSamples shallowParameters bumpFloor) (- (Dx / 2))
       = Inr (3 / 2)
   \<and> \<not> parameters_current deepParameters bumpFloor
   \<and> mSamples (OceanFloor_Update flatSamples deepParameters bumpFloor)
       = flatSamples [] deepParameters
   \<and> parameters_current deepParameters (OceanFloor_Update flatSamples deepParameters bumpFloor)"
proof -
  have a: "parameters_current shallowParameters bumpFloor"
    by (simp add: parameters_current_def shallowParameters_def bumpFloor_def)
  have b: "\<not> parameters_current deepParameters bumpFloor"
    by (simp add: parameters_current_def deepParameters_def bumpFloor_def)
  have m: "mBumpMapSamples bumpFloor = []"
    by (simp add: bumpFloor_def)
  note t1 = OceanFloor_Update_recomputes_only_on_change
    [of shallowParameters bumpFloor flatSamples FastFloorInt32_floor "- (Dx / 2)"]
  note t2 = OceanFloor_Update_recomputes_only_on_change
    [of deepParameters bumpFloor flatSamples FastFloorInt32_floor "- (Dx / 2)"]
  from t1 a have "OceanFloor_Update flatSamples shallowParameters bumpFloor = bumpFloor"
    and "GetFloorHeightAt FastFloorInt32_floor
           (OceanFloor_Update flatSamples shallowParameters bumpFloor) (- (Dx / 2))
         = GetFloorHeightAt FastFloorInt32_floor bumpFloor (- (Dx / 2))"
    by blast+
  moreover from t2 b m
  have "mSamples (OceanFloor_Update flatSamples deepParameters bumpFloor)
          = flatSamples [] deepParameters"
    and "parameters_current deepParameters
           (OceanFloor_Update flatSamples deepParameters bumpFloor)"
    by simp_all
  ultimately show ?thesis
    using a b floor_lookup_left by simp
qed

section \<open>Ship: connected components after breakage\<close>

text \<open>
  Modelled from the spec: the spring of the structure (the classes \<open>Ship\<close>, \<open>Points\<close>
  and \<open>Springs\<close> are not among the sources). Of the attributes the specification
  lists, the record keeps the two endpoint point indices and the ``is broken'' flag.
\<close>

record Spring =
  pointAIndex :: nat
  pointBIndex :: nat
  isBroken :: bool

text \<open>
  Modelled from the spec: a ship owns a fixed-size set of points, addressed by the
  indices \<open>0 ..< pointCount\<close>, its springs, and the derived connected-component
  partition, here the component id of every point.
\<close>

record Ship =
  pointCount :: nat
  springs :: "Spring list"
  connectedComponentId :: "nat option list"

text \<open>
  Modelled from the spec: the surviving spring graph. The neighbours of a point are the
  other endpoints of the springs at the point that are not broken.
\<close>

fun neighbours :: "Spring list \<Rightarrow> nat \<Rightarrow> nat list" where
  "neighbours [] p = []"
| "neighbours (s # ss) p =
     (if isBroken s then []
      else (if pointAIndex s = p then [pointBIndex s] else [])
           @ (if pointBIndex s = p then [pointAIndex s] else []))
     @ neighbours ss p"

text \<open>
  Modelled from the spec: the flood fill over the surviving spring graph. \<open>L\<close> holds
  the component id of every point, \<open>None\<close> while the point is not reached; \<open>W\<close> is the
  queue of points still to visit. A point taken from the queue that has no id yet gets
  the id \<open>c\<close> of the component being filled, and its neighbours join the queue.
\<close>

function FloodFill :: "Spring list \<Rightarrow> nat \<Rightarrow> nat list \<Rightarrow> nat option list \<Rightarrow> nat option list" where
  "FloodFill ss c [] L = L"
| "FloodFill ss c (p # W) L =
     (if p < length L \<and> L ! p = None
      then FloodFill ss c (W @ neighbours ss p) (L[p := Some c])
      else FloodFill ss c W L)"
  by pat_completeness auto

text \<open>The fill terminates: every labelling step leaves fewer points without an id.\<close>

definition unlabelled :: "nat option list \<Rightarrow> nat" where
  "unlabelled L = length (filter (\<lambda>l. l = None) L)"

lemma unlabelled_update:
  "p < length L \<Longrightarrow> L ! p = None \<Longrightarrow> unlabelled (L[p := Some c]) < unlabelled L"
  unfolding unlabelled_def
proof (induction L arbitrary: p)
  case Nil
  then show ?case by simp
next
  case (Cons l L)
  show ?case
  proof (cases p)
    case 0
    with Cons.prems show ?thesis by simp
  next
    case (Suc k)
    with Cons.prems have "k < length L" and "L ! k = None" by simp_all
    from Cons.IH [OF this] Suc show ?thesis by simp
  qed
qed

termination FloodFill
  by (relation "measures [\<lambda>(ss, c, W, L). unlabelled L, \<lambda>(ss, c, W, L). length W]")
     (simp_all add: unlabelled_update)

text \<open>
  Modelled from the spec: the recomputation of the connected components. Every point in
  turn seeds a fill that carries the point's own index as component id; the fill does
  nothing when the point was reached before.
\<close>

fun DetectFrom :: "Spring list \<Rightarrow> nat list \<Rightarrow> nat option list \<Rightarrow> nat option list" where
  "DetectFrom ss [] L = L"
| "DetectFrom ss (p # ps) L = DetectFrom ss ps (FloodFill ss p [p] L)"

definition DetectConnectedComponents :: "Ship \<Rightarrow> nat option list" where
  "DetectConnectedComponents ship =
     DetectFrom (springs ship) [0 ..< pointCount ship] (replicate (pointCount ship) None)"

text \<open>
  The surviving spring graph as a relation: two points are linked when a spring that is
  not broken joins them, and connected when a chain of such springs leads from one to
  the other. A connected component is a class of \<open>pointsConnected\<close>.
\<close>

definition linked :: "Spring list \<Rightarrow> nat \<Rightarrow> nat \<Rightarrow> bool" where
  "linked ss p q \<longleftrightarrow>
     (\<exists>s \<in> set ss. \<not> isBroken s
        \<and> ((pointAIndex s = p \<and> pointBIndex s = q) \<or> (pointBIndex s = p \<and> pointAIndex s = q)))"

definition pointsConnected :: "Spring list \<Rightarrow> nat \<Rightarrow> nat \<Rightarrow> bool" where
  "pointsConnected ss = (linked ss)\<^sup>*\<^sup>*"

definition springs_in_range :: "nat \<Rightarrow> Spring list \<Rightarrow> bool" where
  "springs_in_range n ss \<longleftrightarrow> (\<forall>s \<in> set ss. pointAIndex s < n \<and> pointBIndex s < n)"


lemma set_neighbours: "q \<in> set (neighbours ss p) \<longleftrightarrow> linked ss p q"
  by (induction ss) (auto simp: linked_def)

lemma linked_sym: "linked ss p q \<Longrightarrow> linked ss q p"
  by (auto simp: linked_def)

lemma linked_in_range: "springs_in_range n ss \<Longrightarrow> linked ss p q \<Longrightarrow> p < n \<and> q < n"
  unfolding linked_def springs_in_range_def by blast

lemma pointsConnected_refl: "pointsConnected ss p p"
  by (simp add: pointsConnected_def)

lemma pointsConnected_step:
  "pointsConnected ss p q \<Longrightarrow> linked ss q r \<Longrightarrow> pointsConnected ss p r"
  unfolding pointsConnected_def by (rule rtranclp.rtrancl_into_rtrancl)

lemma pointsConnected_trans:
  "pointsConnected ss p q \<Longrightarrow> pointsConnected ss q r \<Longrightarrow> pointsConnected ss p r"
  unfolding pointsConnected_def by (rule rtranclp_trans)

lemma pointsConnected_sym: "pointsConnected ss p q \<Longrightarrow> pointsConnected ss q p"
  unfolding pointsConnected_def
proof (induction rule: rtranclp_induct)
  case base
  then show ?case by simp
next
  case (step y z)
  from step.hyps(2) have "linked ss z y" by (rule linked_sym)
  from this step.IH show ?case by (rule converse_rtranclp_into_rtranclp)
qed


subsection \<open>Invariants of the fill\<close>

text \<open>
  Between two fills every id names a point its bearer is connected to, and the points
  bearing an id are closed under \<open>linked\<close>. During the fill of component \<open>c\<close> the
  closure may still be pending for points waiting in the queue, every queued point is
  connected to \<open>c\<close>, and no point of an earlier component is.
\<close>

definition components_closed :: "Spring list \<Rightarrow> nat option list \<Rightarrow> bool" where
  "components_closed ss L \<longleftrightarrow>
     (\<forall>p c. p < length L \<longrightarrow> L ! p = Some c \<longrightarrow> pointsConnected ss c p)
     \<and> (\<forall>p q c. p < length L \<longrightarrow> L ! p = Some c \<longrightarrow> linked ss p q
            \<longrightarrow> q < length L \<and> L ! q = Some c)"

definition flood_inv :: "Spring list \<Rightarrow> nat \<Rightarrow> nat list \<Rightarrow> nat option list \<Rightarrow> bool" where
  "flood_inv ss c W L \<longleftrightarrow>
     (\<forall>p c'. p < length L \<longrightarrow> L ! p = Some c' \<longrightarrow> pointsConnected ss c' p)
     \<and> (\<forall>p q c'. p < length L \<longrightarrow> L ! p = Some c' \<longrightarrow> linked ss p q
            \<longrightarrow> (q < length L \<and> L ! q = Some c') \<or> (c' = c \<and> q \<in> set W))
     \<and> (\<forall>w \<in> set W. w < length L \<and> pointsConnected ss c w)
     \<and> (\<forall>p c'. p < length L \<longrightarrow> L ! p = Some c' \<longrightarrow> c' \<noteq> c \<longrightarrow> \<not> pointsConnected ss c p)"

lemma flood_inv_label:
  assumes inv: "flood_inv ss c (p # W) L" and r: "springs_in_range (length L) ss"
    and p: "L ! p = None"
  shows "flood_inv ss c (W @ neighbours ss p) (L[p := Some c])"
proof -
  from inv have pn: "p < length L" and cp: "pointsConnected ss c p"
    by (simp_all add: flood_inv_def)
  have F1: "pointsConnected ss c' x" if "x < length L" and "L[p := Some c] ! x = Some c'" for x c'
  proof (cases "x = p")
    case True
    with that pn cp show ?thesis by simp
  next
    case False
    with that inv show ?thesis by (simp add: flood_inv_def)
  qed
  have F2: "(q < length L \<and> L[p := Some c] ! q = Some c') \<or> (c' = c \<and> q \<in> set (W @ neighbours ss p))"
    if x: "x < length L" and l: "L[p := Some c] ! x = Some c'" and e: "linked ss x q" for x q c'
  proof (cases "x = p")
    case True
    with l pn have "c' = c" by simp
    moreover from e True have "q \<in> set (neighbours ss p)" by (simp add: set_neighbours)
    ultimately show ?thesis by simp
  next
    case False
    with l have lx: "L ! x = Some c'" by simp
    from inv x lx e have "(q < length L \<and> L ! q = Some c') \<or> (c' = c \<and> q \<in> set (p # W))"
      unfolding flood_inv_def by blast
    then show ?thesis
    proof
      assume a: "q < length L \<and> L ! q = Some c'"
      with p have "q \<noteq> p" by auto
      with a show ?thesis by simp
    next
      assume a: "c' = c \<and> q \<in> set (p # W)"
      show ?thesis
      proof (cases "q = p")
        case True
        with a pn show ?thesis by simp
      next
        case False
        with a show ?thesis by simp
      qed
    qed
  qed
  have F3: "w < length L \<and> pointsConnected ss c w" if "w \<in> set (W @ neighbours ss p)" for w
  proof (cases "w \<in> set W")
    case True
    with inv show ?thesis by (simp add: flood_inv_def)
  next
    case False
    with that have l: "linked ss p w" by (simp add: set_neighbours)
    from linked_in_range [OF r l] pointsConnected_step [OF cp l] show ?thesis by simp
  qed
  have F4: "\<not> pointsConnected ss c x"
    if "x < length L" and "L[p := Some c] ! x = Some c'" and "c' \<noteq> c" for x c'
  proof -
    from that pn have "x \<noteq> p" by auto
    with that inv show ?thesis by (simp add: flood_inv_def)
  qed
  from F1 F2 F3 F4 show ?thesis
    unfolding flood_inv_def by (simp only: length_list_update) blast
qed

lemma flood_inv_skip:
  assumes inv: "flood_inv ss c (p # W) L" and p: "L ! p \<noteq> None"
  shows "flood_inv ss c W L"
proof -
  from inv have pn: "p < length L" and cp: "pointsConnected ss c p"
    by (simp_all add: flood_inv_def)
  from p obtain c0 where c0: "L ! p = Some c0" by auto
  have "c0 = c"
  proof (rule ccontr)
    assume "c0 \<noteq> c"
    with inv pn c0 have "\<not> pointsConnected ss c p" unfolding flood_inv_def by blast
    with cp show False by simp
  qed
  with c0 have lp: "L ! p = Some c" by simp
  have F2: "(q < length L \<and> L ! q = Some c') \<or> (c' = c \<and> q \<in> set W)"
    if x: "x < length L" and l: "L ! x = Some c'" and e: "linked ss x q" for x q c'
  proof -
    from inv x l e have "(q < length L \<and> L ! q = Some c') \<or> (c' = c \<and> q \<in> set (p # W))"
      unfolding flood_inv_def by blast
    with pn lp show ?thesis by auto
  qed
  from inv have F1: "\<forall>p c'. p < length L \<longrightarrow> L ! p = Some c' \<longrightarrow> pointsConnected ss c' p"
    and F3: "\<forall>w \<in> set W. w < length L \<and> pointsConnected ss c w"
    and F4: "\<forall>p c'. p < length L \<longrightarrow> L ! p = Some c' \<longrightarrow> c' \<noteq> c \<longrightarrow> \<not> pointsConnected ss c p"
    by (simp_all add: flood_inv_def)
  from F1 F2 F3 F4 show ?thesis
    unfolding flood_inv_def by blast
qed

lemma FloodFill_step_label:
  "p < length L \<Longrightarrow> L ! p = None
   \<Longrightarrow> FloodFill ss c (p # W) L = FloodFill ss c (W @ neighbours ss p) (L[p := Some c])"
  by simp

lemma FloodFill_step_skip:
  "\<not> (p < length L \<and> L ! p = None) \<Longrightarrow> FloodFill ss c (p # W) L = FloodFill ss c W L"
  by auto

lemma FloodFill_length: "length (FloodFill ss c W L) = length L"
  by (induction ss c W L rule: FloodFill.induct) simp_all

declare FloodFill.simps(2) [simp del]

lemma FloodFill_keeps:
  "p < length L \<Longrightarrow> L ! p = Some c' \<Longrightarrow> FloodFill ss c W L ! p = Some c'"
proof (induction ss c W L rule: FloodFill.induct)
  case (1 ss c L)
  then show ?case by simp
next
  case (2 ss c w W L)
  show ?case
  proof (cases "w < length L \<and> L ! w = None")
    case True
    with "2.prems" have "p \<noteq> w" by auto
    with "2.prems" have "p < length (L[w := Some c])" and "L[w := Some c] ! p = Some c'"
      by simp_all
    from "2.IH"(1) [OF True this]
    have "FloodFill ss c (W @ neighbours ss w) (L[w := Some c]) ! p = Some c'" .
    with True show ?thesis by (simp add: FloodFill_step_label)
  next
    case False
    from "2.IH"(2) [OF False "2.prems"] have "FloodFill ss c W L ! p = Some c'" .
    with FloodFill_step_skip [OF False] show ?thesis by simp
  qed
qed

lemma FloodFill_inv:
  "flood_inv ss c W L \<Longrightarrow> springs_in_range (length L) ss
   \<Longrightarrow> flood_inv ss c [] (FloodFill ss c W L)"
proof (induction ss c W L rule: FloodFill.induct)
  case (1 ss c L)
  then show ?case by simp
next
  case (2 ss c w W L)
  from "2.prems"(1) have wn: "w < length L" by (simp add: flood_inv_def)
  show ?case
  proof (cases "w < length L \<and> L ! w = None")
    case True
    then have "L ! w = None" by simp
    from flood_inv_label [OF "2.prems"(1,2) this]
    have i: "flood_inv ss c (W @ neighbours ss w) (L[w := Some c])" .
    from "2.prems"(2) have r: "springs_in_range (length (L[w := Some c])) ss" by simp
    from "2.IH"(1) [OF True i r] True show ?thesis by (simp add: FloodFill_step_label)
  next
    case False
    with wn have "L ! w \<noteq> None" by simp
    from flood_inv_skip [OF "2.prems"(1) this] have i: "flood_inv ss c W L" .
    from "2.IH"(2) [OF False i "2.prems"(2)] FloodFill_step_skip [OF False] show ?thesis
      by simp
  qed
qed

lemma FloodFill_labels_seed:
  assumes "c < length L"
  shows "FloodFill ss c [c] L ! c \<noteq> None"
proof (cases "L ! c = None")
  case True
  have "L[c := Some c] ! c = Some c" using assms by simp
  then have "FloodFill ss c ([] @ neighbours ss c) (L[c := Some c]) ! c = Some c"
    using assms by (intro FloodFill_keeps) simp_all
  with True assms show ?thesis by (simp add: FloodFill_step_label)
next
  case False
  then obtain c' where "L ! c = Some c'" by auto
  from FloodFill_keeps [OF assms this] show ?thesis by simp
qed

lemma closed_label_connected:
  "components_closed ss L \<Longrightarrow> p < length L \<Longrightarrow> L ! p = Some c \<Longrightarrow> pointsConnected ss c p"
  unfolding components_closed_def by blast

lemma closed_along_path:
  assumes "components_closed ss L" and "pointsConnected ss p q"
  shows "p < length L \<Longrightarrow> L ! p = Some c \<Longrightarrow> q < length L \<and> L ! q = Some c"
  using assms(2) unfolding pointsConnected_def
proof (induction rule: rtranclp_induct)
  case base
  then show ?case by simp
next
  case (step y z)
  from step.IH [OF step.prems] have "y < length L" and "L ! y = Some c" by simp_all
  with assms(1) step.hyps(2) show ?case
    unfolding components_closed_def by blast
qed

lemma flood_inv_start:
  assumes cl: "components_closed ss L" and c: "c < length L" and n: "L ! c = None"
  shows "flood_inv ss c [c] L"
proof -
  have F4: "\<not> pointsConnected ss c p" if "p < length L" and "L ! p = Some c'" for p c'
  proof
    assume "pointsConnected ss c p"
    then have "pointsConnected ss p c" by (rule pointsConnected_sym)
    from closed_along_path [OF cl this that] n show False by simp
  qed
  from cl have F1: "\<forall>p c'. p < length L \<longrightarrow> L ! p = Some c' \<longrightarrow> pointsConnected ss c' p"
    and F2: "\<forall>p q c'. p < length L \<longrightarrow> L ! p = Some c' \<longrightarrow> linked ss p q
            \<longrightarrow> q < length L \<and> L ! q = Some c'"
    unfolding components_closed_def by blast+
  show ?thesis
    unfolding flood_inv_def
  proof (intro conjI)
    show "\<forall>p c'. p < length L \<longrightarrow> L ! p = Some c' \<longrightarrow> pointsConnected ss c' p"
      by (rule F1)
    show "\<forall>p q c'. p < length L \<longrightarrow> L ! p = Some c' \<longrightarrow> linked ss p q
            \<longrightarrow> (q < length L \<and> L ! q = Some c') \<or> (c' = c \<and> q \<in> set [c])"
      using F2 by blast
    show "\<forall>w \<in> set [c]. w < length L \<and> pointsConnected ss c w"
      using c by (simp add: pointsConnected_refl)
    show "\<forall>p c'. p < length L \<longrightarrow> L ! p = Some c' \<longrightarrow> c' \<noteq> c \<longrightarrow> \<not> pointsConnected ss c p"
      using F4 by blast
  qed
qed

lemma flood_inv_finish: "flood_inv ss c [] L \<Longrightarrow> components_closed ss L"
  unfolding flood_inv_def components_closed_def list.set(1) by blast

lemma FloodFill_noop: "\<not> (c < length L \<and> L ! c = None) \<Longrightarrow> FloodFill ss c [c] L = L"
  using FloodFill_step_skip [of c L ss c "[]"] by simp

lemma FloodFill_closed:
  assumes "components_closed ss L" and "springs_in_range (length L) ss"
  shows "components_closed ss (FloodFill ss c [c] L)"
proof (cases "c < length L \<and> L ! c = None")
  case True
  then have "flood_inv ss c [c] L"
    using assms(1) by (intro flood_inv_start) simp_all
  from FloodFill_inv [OF this assms(2)] show ?thesis by (rule flood_inv_finish)
next
  case False
  from FloodFill_noop [OF False] assms(1) show ?thesis by simp
qed

lemma DetectFrom_length: "length (DetectFrom ss ps L) = length L"
  by (induction ps arbitrary: L) (simp_all add: FloodFill_length)

lemma DetectFrom_keeps:
  "p < length L \<Longrightarrow> L ! p = Some c \<Longrightarrow> DetectFrom ss ps L ! p = Some c"
proof (induction ps arbitrary: L)
  case Nil
  then show ?case by simp
next
  case (Cons a ps)
  from Cons.prems have "FloodFill ss a [a] L ! p = Some c" by (rule FloodFill_keeps)
  with Cons.prems(1) Cons.IH [of "FloodFill ss a [a] L"] show ?case
    by (simp add: FloodFill_length)
qed

lemma DetectFrom_closed:
  "components_closed ss L \<Longrightarrow> springs_in_range (length L) ss
   \<Longrightarrow> components_closed ss (DetectFrom ss ps L)"
proof (induction ps arbitrary: L)
  case Nil
  then show ?case by simp
next
  case (Cons a ps)
  from Cons.prems have "components_closed ss (FloodFill ss a [a] L)" by (rule FloodFill_closed)
  with Cons.prems(2) Cons.IH [of "FloodFill ss a [a] L"] show ?case
    by (simp add: FloodFill_length)
qed

lemma DetectFrom_labels:
  "p \<in> set ps \<Longrightarrow> p < length L \<Longrightarrow> DetectFrom ss ps L ! p \<noteq> None"
proof (induction ps arbitrary: L)
  case Nil
  then show ?case by simp
next
  case (Cons a ps)
  show ?case
  proof (cases "p = a")
    case True
    with Cons.prems(2) have "FloodFill ss a [a] L ! p \<noteq> None"
      by (simp add: FloodFill_labels_seed)
    then obtain c where "FloodFill ss a [a] L ! p = Some c" by auto
    with Cons.prems(2) have "DetectFrom ss ps (FloodFill ss a [a] L) ! p = Some c"
      by (intro DetectFrom_keeps) (simp_all add: FloodFill_length)
    then show ?thesis by simp
  next
    case False
    with Cons.prems have "p \<in> set ps" by simp
    with Cons.prems(2) Cons.IH [of "FloodFill ss a [a] L"] show ?thesis
      by (simp add: FloodFill_length)
  qed
qed

lemma components_closed_initial: "components_closed ss (replicate n None)"
  by (simp add: components_closed_def)

subsection \<open>The recomputed components are the connected components\<close>

lemma DetectConnectedComponents_correct:
  assumes "springs_in_range (pointCount ship) (springs ship)"
  shows "length (DetectConnectedComponents ship) = pointCount ship
         \<and> (\<forall>p < pointCount ship. \<exists>!c. DetectConnectedComponents ship ! p = Some c)
         \<and> (\<forall>p < pointCount ship. \<forall>q < pointCount ship.
               DetectConnectedComponents ship ! p = DetectConnectedComponents ship ! q
               \<longleftrightarrow> pointsConnected (springs ship) p q)"
proof -
  let ?n = "pointCount ship" and ?ss = "springs ship"
  let ?L = "DetectConnectedComponents ship"
  have len: "length ?L = ?n"
    by (simp add: DetectConnectedComponents_def DetectFrom_length)
  have cl: "components_closed ?ss ?L"
    unfolding DetectConnectedComponents_def
    using assms by (intro DetectFrom_closed components_closed_initial) simp
  have lab: "\<exists>c. ?L ! p = Some c" if "p < ?n" for p
  proof -
    from that have "?L ! p \<noteq> None"
      unfolding DetectConnectedComponents_def by (intro DetectFrom_labels) simp_all
    then show ?thesis by auto
  qed
  have eq: "?L ! p = ?L ! q \<longleftrightarrow> pointsConnected ?ss p q" if p: "p < ?n" and q: "q < ?n" for p q
  proof
    assume e: "?L ! p = ?L ! q"
    from lab [OF p] obtain c where c: "?L ! p = Some c" by blast
    with e have c': "?L ! q = Some c" by simp
    from p q len have pl: "p < length ?L" and ql: "q < length ?L" by simp_all
    have cp: "pointsConnected ?ss c p" using cl pl c by (rule closed_label_connected)
    have cq: "pointsConnected ?ss c q" using cl ql c' by (rule closed_label_connected)
    from pointsConnected_sym [OF cp] cq show "pointsConnected ?ss p q"
      by (rule pointsConnected_trans)
  next
    assume e: "pointsConnected ?ss p q"
    from lab [OF p] obtain c where c: "?L ! p = Some c" by blast
    from p len have pl: "p < length ?L" by simp
    from closed_along_path [OF cl e pl c] have "?L ! q = Some c" by simp
    with c show "?L ! p = ?L ! q" by simp
  qed
  have uniq: "\<exists>!c. ?L ! p = Some c" if "p < ?n" for p
    using lab [OF that] by auto
  show ?thesis
  proof (intro conjI allI impI)
    show "length ?L = ?n" by (rule len)
  next
    fix p assume "p < ?n"
    then show "\<exists>!c. ?L ! p = Some c" by (rule uniq)
  next
    fix p q assume "p < ?n" and "q < ?n"
    then show "?L ! p = ?L ! q \<longleftrightarrow> pointsConnected ?ss p q" by (rule eq)
  qed
qed



subsection \<open>A frame with breakage\<close>

text \<open>
  Modelled from the spec: steps 4 and 5 of the per-frame sequence. A spring that is not
  broken yet and whose strain exceeds its strength is marked broken; the threshold test
  is the parameter \<open>overstrained\<close>, as the specification leaves its formula open. After
  any breakage in the frame the connected components are recomputed.
\<close>

definition breaksNow :: "(Spring \<Rightarrow> bool) \<Rightarrow> Spring \<Rightarrow> bool" where
  "breaksNow overstrained s \<longleftrightarrow> \<not> isBroken s \<and> overstrained s"

definition EvaluateBreakage :: "(Spring \<Rightarrow> bool) \<Rightarrow> Ship \<Rightarrow> Ship" where
  "EvaluateBreakage overstrained ship =
     ship\<lparr> springs := map (\<lambda>s. if breaksNow overstrained s then s\<lparr> isBroken := True \<rparr> else s)
                          (springs ship) \<rparr>"

definition UpdateStructure :: "(Spring \<Rightarrow> bool) \<Rightarrow> Ship \<Rightarrow> Ship" where
  "UpdateStructure overstrained ship =
     (let anyBroke = list_ex (breaksNow overstrained) (springs ship);
          ship' = EvaluateBreakage overstrained ship
      in if anyBroke
         then ship'\<lparr> connectedComponentId := DetectConnectedComponents ship' \<rparr>
         else ship')"

lemma EvaluateBreakage_in_range:
  "springs_in_range n (springs ship) \<Longrightarrow> springs_in_range n (springs (EvaluateBreakage f ship))"
  by (auto simp add: springs_in_range_def EvaluateBreakage_def)

lemma EvaluateBreakage_pointCount: "pointCount (EvaluateBreakage f ship) = pointCount ship"
  by (simp add: EvaluateBreakage_def)

lemma UpdateStructure_after_breakage:
  assumes "list_ex (breaksNow f) (springs ship)"
  shows "pointCount (UpdateStructure f ship) = pointCount ship"
    and "springs (UpdateStructure f ship) = springs (EvaluateBreakage f ship)"
    and "connectedComponentId (UpdateStructure f ship)
         = DetectConnectedComponents (EvaluateBreakage f ship)"
  using assms by (simp_all add: UpdateStructure_def Let_def EvaluateBreakage_def)

text \<open>
  C7. After a frame in which at least one spring broke, the recomputed bookkeeping gives
  every point of the ship exactly one component id, and two points bear the same id
  exactly when they are connected in the surviving spring graph: the ids partition the
  points into the connected components, and no point is in two of them.
\<close>

theorem UpdateStructure_components_partition:
  assumes "springs_in_range (pointCount ship) (springs ship)"
    and "list_ex (breaksNow overstrained) (springs ship)"
  shows "length (connectedComponentId (UpdateStructure overstrained ship)) = pointCount ship
         \<and> (\<forall>p < pointCount ship.
               \<exists>!c. connectedComponentId (UpdateStructure overstrained ship) ! p = Some c)
         \<and> (\<forall>p < pointCount ship. \<forall>q < pointCount ship.
               connectedComponentId (UpdateStructure overstrained ship) ! p
                 = connectedComponentId (UpdateStructure overstrained ship) ! q
               \<longleftrightarrow> pointsConnected (springs (UpdateStructure overstrained ship)) p q)"
proof -
  let ?ship' = "EvaluateBreakage overstrained ship"
  have r: "springs_in_range (pointCount ?ship') (springs ?ship')"
    using assms(1) by (simp add: EvaluateBreakage_in_range EvaluateBreakage_pointCount)
  note u = UpdateStructure_after_breakage [OF assms(2)]
  from DetectConnectedComponents_correct [OF r] show ?thesis
    unfolding u EvaluateBreakage_pointCount .
qed

text \<open>
  For evaluations: five points in a chain 0 - 1 - 2 - 4 with point 3 on its own, and a
  frame in which the spring between 1 and 2 breaks.
\<close>

definition chainHull :: Ship where
  "chainHull = \<lparr> pointCount = 5,
     springs = [\<lparr> pointAIndex = 0, pointBIndex = 1, isBroken = False \<rparr>,
                \<lparr> pointAIndex = 1, pointBIndex = 2, isBroken = False \<rparr>,
                \<lparr> pointAIndex = 4, pointBIndex = 2, isBroken = False \<rparr>],
     connectedComponentId = [Some 0, Some 0, Some 0, Some 3, Some 0] \<rparr>"

definition midSpringOverstrained :: "Spring \<Rightarrow> bool" where
  "midSpringOverstrained s \<longleftrightarrow> pointAIndex s = 1 \<and> pointBIndex s = 2"

lemma chainHull_in_range: "springs_in_range (pointCount chainHull) (springs chainHull)"
  by (simp add: springs_in_range_def chainHull_def)

lemma chainHull_breaks: "list_ex (breaksNow midSpringOverstrained) (springs chainHull)"
  by (simp add: chainHull_def breaksNow_def midSpringOverstrained_def)

lemma chainHull_components:
  "connectedComponentId (UpdateStructure midSpringOverstrained chainHull)
   = [Some 0, Some 0, Some 2, Some 3, Some 2]"
  by code_simp

lemma chainHull_springs:
  "map isBroken (springs (UpdateStructure midSpringOverstrained chainHull)) = [False, True, False]"
  by code_simp

theorem UpdateStructure_components_partition_witness:
  "springs_in_range (pointCount chainHull) (springs chainHull)
   \<and> list_ex (breaksNow midSpringOverstrained) (springs chainHull)
   \<and> map isBroken (springs (UpdateStructure midSpringOverstrained chainHull)) = [False, True, False]
   \<and> connectedComponentId (UpdateStructure midSpringOverstrained chainHull)
       = [Some 0, Some 0, Some 2, Some 3, Some 2]
   \<and> pointsConnected (springs (UpdateStructure midSpringOverstrained chainHull)) 0 1
   \<and> pointsConnected (springs (UpdateStructure midSpringOverstrained chainHull)) 2 4
   \<and> \<not> pointsConnected (springs (UpdateStructure midSpringOverstrained chainHull)) 1 2
   \<and> \<not> pointsConnected (springs (UpdateStructure midSpringOverstrained chainHull)) 3 4"
proof -
  note t = UpdateStructure_components_partition [OF chainHull_in_range chainHull_breaks]
  have n: "pointCount chainHull = 5" by (simp add: chainHull_def)
  let ?ids = "connectedComponentId (UpdateStructure midSpringOverstrained chainHull)"
  let ?ss = "springs (UpdateStructure midSpringOverstrained chainHull)"
  from t n have e: "?ids ! p = ?ids ! q \<longleftrightarrow> pointsConnected ?ss p q" if "p < 5" and "q < 5" for p q
    using that by simp
  have "pointsConnected ?ss 0 1"
    using e [of 0 1] by (simp add: chainHull_components)
  moreover have "pointsConnected ?ss 2 4"
    using e [of 2 4] by (simp add: chainHull_components)
  moreover have "\<not> pointsConnected ?ss 1 2"
    using e [of 1 2] by (simp add: chainHull_components)
  moreover have "\<not> pointsConnected ?ss 3 4"
    using e [of 3 4] by (simp add: chainHull_components)
  ultimately show ?thesis
    using chainHull_in_range chainHull_breaks chainHull_components chainHull_springs by simp
qed

end
